theory Spec2Isabelle
  imports Complex_Main
begin

section \<open>Data model of the mock queue store\<close>

text \<open>
  The module \<^verbatim>\<open>src/lib/index.ts\<close> keeps a process-wide list of stores
  (\<^verbatim>\<open>RedisQueueMockStored.stores\<close>); every store holds a list \<^verbatim>\<open>storing\<close> of entries
  \<^verbatim>\<open>{ key, watch, items }\<close> and the connection string it was created for. A client is a
  handle on one store.

  Callbacks and listeners are JavaScript functions whose bodies live outside the module.
  They are modelled by their identity (a number), and an invocation \<^verbatim>\<open>callback(err, item)\<close>
  is recorded as a \<open>Call\<close> in the list of calls an operation makes, in the order it makes
  them. Every mutation of a store by \<^verbatim>\<open>rpush\<close>, \<^verbatim>\<open>blpop\<close> and \<^verbatim>\<open>lpop\<close> happens before the
  callback is invoked, and nothing is written after it returns: a callback that calls the
  client again acts on the store as the same calls made right after the operation. The
  one read that follows a callback is \<^verbatim>\<open>items.length\<close> in the hand-off branch of \<^verbatim>\<open>rpush\<close>:
  there the waiter is a function some earlier \<^verbatim>\<open>blpop\<close> left in the store, and what it does
  before it returns decides the number \<^verbatim>\<open>rpush\<close> returns, or that \<^verbatim>\<open>rpush\<close> does not return.
\<close>

type_synonym callback = nat
type_synonym listener = nat

text \<open>A JavaScript \<^verbatim>\<open>number\<close>; the only one in the module is \<^verbatim>\<open>timeoutInSecs\<close>.\<close>

type_synonym number = real

text \<open>The values handed to a callback: \<^verbatim>\<open>null\<close>, a string, or an array of strings.\<close>

datatype arg = Null | Str string | Arr "string list"

datatype call = Call callback arg arg

record entry =
  key :: string
  watch :: "callback list"
  items :: "string list"

record RedisQueueMockStored =
  storing :: "entry list"
  connect :: string

text \<open>
  The field \<^verbatim>\<open>store\<close> of a client is a reference to a store object. Every store object is
  pushed onto the static list \<^verbatim>\<open>stores\<close> by its constructor and never removed, so the
  reference is modelled by the position of the store in that list. The field \<^verbatim>\<open>error\<close> is
  declared without an initialiser: it is \<^verbatim>\<open>undefined\<close> (\<open>None\<close>) until \<^verbatim>\<open>on\<close> sets it.
\<close>

record RedisQueueMockClient =
  store :: nat
  error :: "listener option"

text \<open>What can be thrown: \<^verbatim>\<open>new Error(message)\<close>, and the \<^verbatim>\<open>TypeError\<close> of reading a
  property of \<^verbatim>\<open>undefined\<close>.\<close>

datatype exn = Error string | TypeError

text \<open>
  What a function does when it is called as a waiter: whether it throws, the store as it
  leaves it (it may have called the client), and the calls made to callbacks meanwhile.
  \<open>inert\<close> is a function that returns without touching the store.
\<close>

type_synonym invocation =
  "call \<Rightarrow> RedisQueueMockStored \<Rightarrow> exn option \<times> RedisQueueMockStored \<times> call list"

definition inert :: invocation where
  "inert c s = (None, s, [])"

section \<open>Library functions of the host language\<close>

text \<open>\<^verbatim>\<open>Array.prototype.findIndex\<close>: the first position whose element satisfies the
  predicate; \<open>None\<close> stands for the result \<^verbatim>\<open>-1\<close>.\<close>

fun findIndex :: "('a \<Rightarrow> bool) \<Rightarrow> 'a list \<Rightarrow> nat option" where
  "findIndex P [] = None"
| "findIndex P (x # xs) = (if P x then Some 0 else map_option Suc (findIndex P xs))"

text \<open>\<^verbatim>\<open>String.prototype.startsWith\<close>.\<close>

definition startsWith :: "string \<Rightarrow> string \<Rightarrow> bool" where
  "startsWith s p = (take (length p) s = p)"

section \<open>The client operations on one store\<close>

text \<open>
  Each operation takes the store the client is bound to and returns the store after the
  call together with the calls made to callbacks. \<^verbatim>\<open>xs.shift()\<close> is \<open>hd xs\<close> with \<open>tl xs\<close>
  left behind; the source guards each \<^verbatim>\<open>shift\<close> by \<^verbatim>\<open>length > 0\<close>.

  \<^verbatim>\<open>rpush\<close> also gives the returned number (\<open>Inr\<close>) or the exception that leaves it
  (\<open>Inl\<close>). In its hand-off branch the waiter runs first, as \<open>invoke\<close> says, and only then
  \<^verbatim>\<open>this.store.storing[index].items.length\<close> is read, from the store the waiter left; an
  exception of the waiter is not caught. \<^verbatim>\<open>storing[index]\<close> past the end is \<^verbatim>\<open>undefined\<close>,
  whose \<^verbatim>\<open>items\<close> cannot be read.
\<close>

definition rpush ::
  "invocation \<Rightarrow> RedisQueueMockStored \<Rightarrow> string \<Rightarrow> string \<Rightarrow>
     RedisQueueMockStored \<times> call list \<times> (exn + nat)" where
  "rpush invoke s queueKey val =
    (case findIndex (\<lambda>l. key l = queueKey) (storing s) of
       Some index \<Rightarrow>
         (let e = storing s ! index in
          if length (watch e) > 0 then
            (let s1 = s\<lparr>storing := (storing s)[index := e\<lparr>watch := tl (watch e)\<rparr>]\<rparr>;
                 c = Call (hd (watch e)) Null (Arr [queueKey, val])
             in case invoke c s1 of
                  (Some x, s2, calls) \<Rightarrow> (s2, c # calls, Inl x)
                | (None, s2, calls) \<Rightarrow>
                    if index < length (storing s2) then
                      (s2, c # calls, Inr (length (items (storing s2 ! index)) + 1))
                    else (s2, c # calls, Inl TypeError))
          else
            (let s1 = s\<lparr>storing := (storing s)[index := e\<lparr>items := items e @ [val]\<rparr>]\<rparr>
             in (s1, [], Inr (length (items (storing s1 ! index))))))
     | None \<Rightarrow>
         (s\<lparr>storing := storing s @ [\<lparr>key = queueKey, watch = [], items = [val]\<rparr>]\<rparr>,
          [], Inr 1))"

definition blpop ::
  "RedisQueueMockStored \<Rightarrow> string \<Rightarrow> number \<Rightarrow> callback \<Rightarrow> RedisQueueMockStored \<times> call list" where
  "blpop s queueKey timeoutInSecs callback =
    (case findIndex (\<lambda>l. key l = queueKey) (storing s) of
       Some index \<Rightarrow>
         (let e = storing s ! index in
          if length (items e) > 0 then
            (s\<lparr>storing := (storing s)[index := e\<lparr>items := tl (items e)\<rparr>]\<rparr>,
             [Call callback Null (Arr [queueKey, hd (items e)])])
          else
            (s\<lparr>storing := (storing s)[index := e\<lparr>watch := watch e @ [callback]\<rparr>]\<rparr>, []))
     | None \<Rightarrow>
         (s\<lparr>storing := storing s @ [\<lparr>key = queueKey, watch = [callback], items = []\<rparr>]\<rparr>, []))"

definition lpop ::
  "RedisQueueMockStored \<Rightarrow> string \<Rightarrow> callback \<Rightarrow> RedisQueueMockStored \<times> call list" where
  "lpop s queueKey callback =
    (case findIndex (\<lambda>l. key l = queueKey) (storing s) of
       Some index \<Rightarrow>
         (let e = storing s ! index in
          if length (items e) > 0 then
            (s\<lparr>storing := (storing s)[index := e\<lparr>items := tl (items e)\<rparr>]\<rparr>,
             [Call callback Null (Str (hd (items e)))])
          else (s, [Call callback Null Null]))
     | None \<Rightarrow> (s, [Call callback Null Null]))"

text \<open>\<^verbatim>\<open>on\<close> and \<^verbatim>\<open>quit\<close> touch the handle only.\<close>

definition on :: "RedisQueueMockClient \<Rightarrow> string \<Rightarrow> listener \<Rightarrow> RedisQueueMockClient" where
  "on c event l = (if event = ''error'' then c\<lparr>error := Some l\<rparr> else c)"

definition quit :: "RedisQueueMockClient \<Rightarrow> string" where
  "quit c = ''OK''"

section \<open>The registry\<close>

definition initializeClient :: "nat \<Rightarrow> RedisQueueMockClient" where
  "initializeClient this = \<lparr>store = this, error = None\<rparr>"

text \<open>
  \<^verbatim>\<open>createClient\<close> on the static list \<open>stores\<close>: the loop returns a client of the first
  store whose \<^verbatim>\<open>connect\<close> is the given string; otherwise a new store, with nothing in
  \<^verbatim>\<open>storing\<close>, is pushed onto the list. The \<^verbatim>\<open>throw\<close> is the \<open>Inl\<close> result.
\<close>

definition createClient ::
  "string \<Rightarrow> RedisQueueMockStored list \<Rightarrow> (exn + RedisQueueMockClient) \<times> RedisQueueMockStored list" where
  "createClient conn stores =
    (if startsWith conn ''mocks://'' = True then
       (case findIndex (\<lambda>s. connect s = conn) stores of
          Some i \<Rightarrow> (Inr (initializeClient i), stores)
        | None \<Rightarrow>
            (Inr (initializeClient (length stores)),
             stores @ [\<lparr>storing = [], connect = conn\<rparr>]))
     else (Inl (Error ''invalid mock queue protocol''), stores))"

section \<open>Sequences of operations on the registry\<close>

text \<open>
  A client method reads and writes the store its handle refers to. A handle is only ever
  made by \<^verbatim>\<open>initializeClient\<close> on a store of the registry, so a command whose handle
  refers to no store of the registry is not a call the program can make: it has no
  execution (\<open>None\<close>). \<^verbatim>\<open>on\<close> and \<^verbatim>\<open>quit\<close> do not touch the registry and are left out.
  An exception thrown by \<^verbatim>\<open>createClient\<close> is taken to be caught by the caller, so the
  sequence goes on. In a sequence the callbacks are inert: a call that a callback makes
  on the client is a command of the sequence, placed after the command that invoked it.
  The stores and the calls are then those of the program; the number recorded for a push
  is the one it returns to a waiter that has not touched the store (\<open>rpush\<close> gives the
  number for any waiter).
\<close>

datatype command =
    CreateClient string
  | Rpush RedisQueueMockClient string string
  | Blpop RedisQueueMockClient string number callback
  | Lpop RedisQueueMockClient string callback

datatype result = Client RedisQueueMockClient | Thrown exn | Number nat | Void

fun exec ::
  "command \<Rightarrow> RedisQueueMockStored list \<Rightarrow> (RedisQueueMockStored list \<times> call list \<times> result) option" where
  "exec (CreateClient conn) stores =
     (case createClient conn stores of
        (Inl e, stores') \<Rightarrow> Some (stores', [], Thrown e)
      | (Inr c, stores') \<Rightarrow> Some (stores', [], Client c))"
| "exec (Rpush c queueKey val) stores =
     (if store c < length stores then
        (case rpush inert (stores ! store c) queueKey val of
           (s', calls, Inr n) \<Rightarrow> Some (stores[store c := s'], calls, Number n)
         | (s', calls, Inl x) \<Rightarrow> Some (stores[store c := s'], calls, Thrown x))
      else None)"
| "exec (Blpop c queueKey timeoutInSecs callback) stores =
     (if store c < length stores then
        (case blpop (stores ! store c) queueKey timeoutInSecs callback of
           (s', calls) \<Rightarrow> Some (stores[store c := s'], calls, Void))
      else None)"
| "exec (Lpop c queueKey callback) stores =
     (if store c < length stores then
        (case lpop (stores ! store c) queueKey callback of
           (s', calls) \<Rightarrow> Some (stores[store c := s'], calls, Void))
      else None)"

text \<open>Running a sequence of commands: the registry at the end and every call made to a
  callback, in order.\<close>

fun run ::
  "command list \<Rightarrow> RedisQueueMockStored list \<Rightarrow> (RedisQueueMockStored list \<times> call list) option" where
  "run [] stores = Some (stores, [])"
| "run (c # cs) stores =
     (case exec c stores of
        None \<Rightarrow> None
      | Some (stores1, calls1, r) \<Rightarrow>
          (case run cs stores1 of
             None \<Rightarrow> None
           | Some (stores2, calls2) \<Rightarrow> Some (stores2, calls1 @ calls2)))"

section \<open>Observations\<close>

text \<open>The queue a name refers to is the first entry with that key, as \<^verbatim>\<open>findIndex\<close>
  selects it; an absent queue has no items and no waiters.\<close>

definition queue_of :: "RedisQueueMockStored \<Rightarrow> string \<Rightarrow> entry option" where
  "queue_of s name = find (\<lambda>l. key l = name) (storing s)"

definition buffered :: "RedisQueueMockStored \<Rightarrow> string \<Rightarrow> string list" where
  "buffered s name = (case queue_of s name of None \<Rightarrow> [] | Some q \<Rightarrow> items q)"

definition waiting :: "RedisQueueMockStored \<Rightarrow> string \<Rightarrow> callback list" where
  "waiting s name = (case queue_of s name of None \<Rightarrow> [] | Some q \<Rightarrow> watch q)"

text \<open>The items and waiters of queue \<open>Q\<close> as a client with handle \<open>h\<close> finds them.\<close>

definition queue_view ::
  "RedisQueueMockStored list \<Rightarrow> RedisQueueMockClient \<Rightarrow> string \<Rightarrow> string list \<times> callback list" where
  "queue_view stores h Q = (buffered (stores ! store h) Q, waiting (stores ! store h) Q)"

text \<open>No entry of any store has both items and waiters.\<close>

definition never_both :: "RedisQueueMockStored \<Rightarrow> bool" where
  "never_both s = list_all (\<lambda>e. items e = [] \<or> watch e = []) (storing s)"

text \<open>
  The queue of the specification, written from its sections 3 and 4 for one queue name: a
  sequence of items and a sequence of waiters, both appended at the tail and removed at
  the head. A push goes to the oldest waiter when there is one and to the tail of the
  items otherwise; a blocking pop takes the head item when there is one and joins the
  tail of the waiters otherwise; an immediate pop takes the head item or gets \<^verbatim>\<open>null\<close>.
\<close>

datatype qop = Push string | BlockingPop number callback | Pop callback

fun fifo_step ::
  "string \<Rightarrow> qop \<Rightarrow> string list \<times> callback list \<Rightarrow> (string list \<times> callback list) \<times> call list" where
  "fifo_step Q (Push v) (xs, ws) =
     (case ws of
        [] \<Rightarrow> ((xs @ [v], []), [])
      | w # ws' \<Rightarrow> ((xs, ws'), [Call w Null (Arr [Q, v])]))"
| "fifo_step Q (BlockingPop t f) (xs, ws) =
     (case xs of
        [] \<Rightarrow> (([], ws @ [f]), [])
      | x # xs' \<Rightarrow> ((xs', ws), [Call f Null (Arr [Q, x])]))"
| "fifo_step Q (Pop f) (xs, ws) =
     (case xs of
        [] \<Rightarrow> (([], ws), [Call f Null Null])
      | x # xs' \<Rightarrow> ((xs', ws), [Call f Null (Str x)]))"

fun fifo_run ::
  "string \<Rightarrow> qop list \<Rightarrow> string list \<times> callback list \<Rightarrow> (string list \<times> callback list) \<times> call list" where
  "fifo_run Q [] q = (q, [])"
| "fifo_run Q (p # ps) q =
     (case fifo_step Q p q of
        (q1, calls1) \<Rightarrow>
          (case fifo_run Q ps q1 of (q2, calls2) \<Rightarrow> (q2, calls1 @ calls2)))"

text \<open>The client call that carries out an operation on queue \<open>Q\<close> through handle \<open>h\<close>.\<close>

fun command_of :: "RedisQueueMockClient \<Rightarrow> string \<Rightarrow> qop \<Rightarrow> command" where
  "command_of h Q (Push v) = Rpush h Q v"
| "command_of h Q (BlockingPop t f) = Blpop h Q t f"
| "command_of h Q (Pop f) = Lpop h Q f"

text \<open>A pop of either kind, and the call by which it hands an item to its callback.\<close>

datatype pop = Immediate callback | Blocking number callback

fun pop_command :: "RedisQueueMockClient \<Rightarrow> string \<Rightarrow> pop \<Rightarrow> command" where
  "pop_command h Q (Immediate f) = Lpop h Q f"
| "pop_command h Q (Blocking t f) = Blpop h Q t f"

fun delivery :: "string \<Rightarrow> pop \<Rightarrow> string \<Rightarrow> call" where
  "delivery Q (Immediate f) x = Call f Null (Str x)"
| "delivery Q (Blocking t f) x = Call f Null (Arr [Q, x])"


fun invoked :: "callback \<Rightarrow> call \<Rightarrow> bool" where
  "invoked cb (Call f err item) = (f = cb)"

fun lpop_callback :: "command \<Rightarrow> callback option" where
  "lpop_callback (Lpop c queueKey callback) = Some callback"
| "lpop_callback _ = None"

text \<open>The listener a handle keeps for an event label: \<^verbatim>\<open>error\<close> is the only field of the
  class that holds a listener.\<close>

definition registered :: "RedisQueueMockClient \<Rightarrow> string \<Rightarrow> listener option" where
  "registered c event = (if event = ''error'' then error c else None)"

section \<open>Facts about the library functions\<close>

lemma findIndex_None: "findIndex P xs = None \<longleftrightarrow> (\<forall>x\<in>set xs. \<not> P x)"
  by (induction xs) auto

lemma findIndex_Some:
  "findIndex P xs = Some i \<Longrightarrow> i < length xs \<and> P (xs ! i) \<and> (\<forall>j<i. \<not> P (xs ! j))"
proof (induction xs arbitrary: i)
  case Nil
  then show ?case by simp
next
  case (Cons x xs)
  show ?case
  proof (cases "P x")
    case True
    with Cons.prems show ?thesis by simp
  next
    case False
    with Cons.prems obtain k where k: "findIndex P xs = Some k" "i = Suc k"
      by auto
    from Cons.IH [OF k(1)] False k(2) show ?thesis
      by (auto simp: less_Suc_eq_0_disj)
  qed
qed

lemma find_findIndex: "find P xs = map_option (\<lambda>i. xs ! i) (findIndex P xs)"
  by (induction xs) (auto simp: option.map_comp comp_def)


lemma find_append:
  "find P (xs @ ys) = (case find P xs of None \<Rightarrow> find P ys | Some x \<Rightarrow> Some x)"
  by (induction xs) auto


lemma find_update_key:
  assumes "findIndex (\<lambda>l. key l = k) xs = Some i" and "key e = k"
  shows "find (\<lambda>l. key l = k') (xs[i := e]) =
           (if k' = k then Some e else find (\<lambda>l. key l = k') xs)"
  using assms
proof (induction xs arbitrary: i)
  case Nil
  then show ?case by simp
next
  case (Cons x xs)
  show ?case
  proof (cases "key x = k")
    case True
    with Cons.prems have "i = 0" by simp
    with True Cons.prems(2) show ?thesis by simp
  next
    case False
    with Cons.prems obtain j where j: "findIndex (\<lambda>l. key l = k) xs = Some j" "i = Suc j"
      by auto
    from Cons.IH [OF j(1) Cons.prems(2)] False j(2) show ?thesis
      by (cases "k' = k") simp_all
  qed
qed



lemma map_update_same:
  "i < length xs \<Longrightarrow> f y = f (xs ! i) \<Longrightarrow> map f (xs[i := y]) = map f xs"
  by (simp add: map_update list_update_same_conv)


subsection \<open>The three cases of each operation\<close>

lemma queue_of_findIndex:
  "queue_of s k = map_option (\<lambda>i. storing s ! i) (findIndex (\<lambda>l. key l = k) (storing s))"
  by (simp add: queue_of_def find_findIndex)

lemma queue_of_update:
  assumes "findIndex (\<lambda>l. key l = k) (storing s) = Some i" and "key e = k"
  shows "queue_of (s\<lparr>storing := (storing s)[i := e]\<rparr>) k' =
           (if k' = k then Some e else queue_of s k')"
  using find_update_key [OF assms] by (simp add: queue_of_def)

lemma queue_of_append:
  "queue_of (s\<lparr>storing := storing s @ [e]\<rparr>) k' =
     (case queue_of s k' of
        None \<Rightarrow> if key e = k' then Some e else None
      | Some q \<Rightarrow> Some q)"
  by (simp add: queue_of_def find_append split: option.splits)

lemma rpush_absent:
  assumes "findIndex (\<lambda>l. key l = k) (storing s) = None"
  shows "rpush invoke s k v
           = (s\<lparr>storing := storing s @ [\<lparr>key = k, watch = [], items = [v]\<rparr>]\<rparr>, [], Inr 1)"
  using assms by (simp add: rpush_def)

lemma rpush_buffer:
  assumes "findIndex (\<lambda>l. key l = k) (storing s) = Some i" and "watch (storing s ! i) = []"
  shows "rpush invoke s k v =
           (s\<lparr>storing := (storing s)[i := (storing s ! i)\<lparr>items := items (storing s ! i) @ [v]\<rparr>]\<rparr>,
            [], Inr (length (items (storing s ! i)) + 1))"
proof -
  from findIndex_Some [OF assms(1)] have "i < length (storing s)" by simp
  with assms show ?thesis by (simp add: rpush_def Let_def)
qed

lemma rpush_handoff:
  assumes "findIndex (\<lambda>l. key l = k) (storing s) = Some i" and "watch (storing s ! i) \<noteq> []"
    and "invoke (Call (hd (watch (storing s ! i))) Null (Arr [k, v]))
           (s\<lparr>storing := (storing s)[i := (storing s ! i)\<lparr>watch := tl (watch (storing s ! i))\<rparr>]\<rparr>)
         = (x, s2, cs)"
  shows "rpush invoke s k v =
           (s2, Call (hd (watch (storing s ! i))) Null (Arr [k, v]) # cs,
            case x of
              Some ex \<Rightarrow> Inl ex
            | None \<Rightarrow>
                if i < length (storing s2) then Inr (length (items (storing s2 ! i)) + 1)
                else Inl TypeError)"
  using assms by (simp add: rpush_def Let_def split: option.splits)

lemma rpush_handoff_inert:
  assumes "findIndex (\<lambda>l. key l = k) (storing s) = Some i" and "watch (storing s ! i) \<noteq> []"
  shows "rpush inert s k v =
           (s\<lparr>storing := (storing s)[i := (storing s ! i)\<lparr>watch := tl (watch (storing s ! i))\<rparr>]\<rparr>,
            [Call (hd (watch (storing s ! i))) Null (Arr [k, v])],
            Inr (length (items (storing s ! i)) + 1))"
proof -
  from findIndex_Some [OF assms(1)] have "i < length (storing s)" by simp
  have "inert (Call (hd (watch (storing s ! i))) Null (Arr [k, v]))
           (s\<lparr>storing := (storing s)[i := (storing s ! i)\<lparr>watch := tl (watch (storing s ! i))\<rparr>]\<rparr>)
         = (None, s\<lparr>storing := (storing s)[i := (storing s ! i)\<lparr>watch := tl (watch (storing s ! i))\<rparr>]\<rparr>, [])"
    by (simp add: inert_def)
  from rpush_handoff [where invoke = inert, OF assms this] \<open>i < length (storing s)\<close>
  show ?thesis
    by simp
qed

lemma blpop_absent:
  assumes "findIndex (\<lambda>l. key l = k) (storing s) = None"
  shows "blpop s k t cb = (s\<lparr>storing := storing s @ [\<lparr>key = k, watch = [cb], items = []\<rparr>]\<rparr>, [])"
  using assms by (simp add: blpop_def)

lemma blpop_deliver:
  assumes "findIndex (\<lambda>l. key l = k) (storing s) = Some i" and "items (storing s ! i) \<noteq> []"
  shows "blpop s k t cb =
           (s\<lparr>storing := (storing s)[i := (storing s ! i)\<lparr>items := tl (items (storing s ! i))\<rparr>]\<rparr>,
            [Call cb Null (Arr [k, hd (items (storing s ! i))])])"
  using assms by (simp add: blpop_def Let_def)

lemma blpop_register:
  assumes "findIndex (\<lambda>l. key l = k) (storing s) = Some i" and "items (storing s ! i) = []"
  shows "blpop s k t cb =
           (s\<lparr>storing := (storing s)[i := (storing s ! i)\<lparr>watch := watch (storing s ! i) @ [cb]\<rparr>]\<rparr>, [])"
  using assms by (simp add: blpop_def Let_def)

lemma lpop_absent:
  assumes "findIndex (\<lambda>l. key l = k) (storing s) = None"
  shows "lpop s k cb = (s, [Call cb Null Null])"
  using assms by (simp add: lpop_def)

lemma lpop_deliver:
  assumes "findIndex (\<lambda>l. key l = k) (storing s) = Some i" and "items (storing s ! i) \<noteq> []"
  shows "lpop s k cb =
           (s\<lparr>storing := (storing s)[i := (storing s ! i)\<lparr>items := tl (items (storing s ! i))\<rparr>]\<rparr>,
            [Call cb Null (Str (hd (items (storing s ! i))))])"
  using assms by (simp add: lpop_def Let_def)

lemma lpop_empty:
  assumes "findIndex (\<lambda>l. key l = k) (storing s) = Some i" and "items (storing s ! i) = []"
  shows "lpop s k cb = (s, [Call cb Null Null])"
  using assms by (simp add: lpop_def Let_def)


section \<open>Push\<close>

lemma rpush_queue_of:
  "rpush inert s name v = (s', calls, r) \<Longrightarrow>
   (case queue_of s name of
      Some q \<Rightarrow>
        if watch q \<noteq> [] then
          calls = [Call (hd (watch q)) Null (Arr [name, v])] \<and>
          queue_of s' name = Some (q\<lparr>watch := tl (watch q)\<rparr>) \<and>
          r = Inr (length (items q) + 1)
        else
          calls = [] \<and>
          queue_of s' name = Some (q\<lparr>items := items q @ [v]\<rparr>) \<and>
          r = Inr (length (items q @ [v]))
    | None \<Rightarrow>
        calls = [] \<and>
        queue_of s' name = Some \<lparr>key = name, watch = [], items = [v]\<rparr> \<and>
        r = Inr 1) \<and>
   (\<forall>k. k \<noteq> name \<longrightarrow> queue_of s' k = queue_of s k) \<and>
   connect s' = connect s"
proof -
  assume r: "rpush inert s name v = (s', calls, r)"
  show ?thesis
  proof (cases "findIndex (\<lambda>l. key l = name) (storing s)")
    case None
    then have q: "queue_of s name = None"
      by (simp add: queue_of_findIndex)
    from r rpush_absent [OF None, of inert v]
    have s': "s' = s\<lparr>storing := storing s @ [\<lparr>key = name, watch = [], items = [v]\<rparr>]\<rparr>"
      and c: "calls = []" and n: "r = Inr 1"
      by simp_all
    have 1: "queue_of s' name = Some \<lparr>key = name, watch = [], items = [v]\<rparr>"
      unfolding s' queue_of_append q by simp
    have 2: "queue_of s' k = queue_of s k" if "k \<noteq> name" for k
      unfolding s' queue_of_append using that by (simp split: option.splits)
    have 3: "connect s' = connect s"
      by (simp add: s')
    show ?thesis
      unfolding q using c n 1 2 3 by simp
  next
    case (Some i)
    define e where "e = storing s ! i"
    from findIndex_Some [OF Some] have ke: "key e = name"
      by (simp add: e_def)
    from Some have q: "queue_of s name = Some e"
      by (simp add: queue_of_findIndex e_def)
    show ?thesis
    proof (cases "watch e = []")
      case True
      from r rpush_buffer [OF Some, of inert v] True
      have s': "s' = s\<lparr>storing := (storing s)[i := e\<lparr>items := items e @ [v]\<rparr>]\<rparr>"
        and c: "calls = []" and n: "r = Inr (length (items e @ [v]))"
        by (simp_all add: e_def)
      have 1: "queue_of s' k = (if k = name then Some (e\<lparr>items := items e @ [v]\<rparr>) else queue_of s k)" for k
        unfolding s' using queue_of_update [OF Some, of "e\<lparr>items := items e @ [v]\<rparr>" k] ke by simp
      have 3: "connect s' = connect s"
        by (simp add: s')
      show ?thesis
        unfolding q using True c n 1 3 by simp
    next
      case False
      from r rpush_handoff_inert [OF Some, of v] False
      have s': "s' = s\<lparr>storing := (storing s)[i := e\<lparr>watch := tl (watch e)\<rparr>]\<rparr>"
        and c: "calls = [Call (hd (watch e)) Null (Arr [name, v])]" and n: "r = Inr (length (items e) + 1)"
        by (simp_all add: e_def)
      have 1: "queue_of s' k = (if k = name then Some (e\<lparr>watch := tl (watch e)\<rparr>) else queue_of s k)" for k
        unfolding s' using queue_of_update [OF Some, of "e\<lparr>watch := tl (watch e)\<rparr>" k] ke by simp
      have 3: "connect s' = connect s"
        by (simp add: s')
      show ?thesis
        unfolding q using False c n 1 3 by simp
    qed
  qed
qed


lemma rpush_keys:
  assumes "rpush inert s k v = (s', calls, r)"
  shows "take (length (storing s)) (map key (storing s')) = map key (storing s)"
proof (cases "findIndex (\<lambda>l. key l = k) (storing s)")
  case None
  from assms rpush_absent [OF None, of inert v] show ?thesis
    by auto
next
  case (Some i)
  from findIndex_Some [OF Some] have i: "i < length (storing s)"
    by simp
  show ?thesis
  proof (cases "watch (storing s ! i) = []")
    case True
    from assms rpush_buffer [OF Some True, of inert v] i show ?thesis
      by (auto simp: map_update_same)
  next
    case False
    from assms rpush_handoff_inert [OF Some False, of v] i show ?thesis
      by (auto simp: map_update_same)
  qed
qed



section \<open>Blocking pop\<close>

lemma blpop_queue_of:
  "blpop s name t cb = (s', calls) \<Longrightarrow>
   (case queue_of s name of
      Some q \<Rightarrow>
        if items q \<noteq> [] then
          calls = [Call cb Null (Arr [name, hd (items q)])] \<and>
          queue_of s' name = Some (q\<lparr>items := tl (items q)\<rparr>)
        else
          calls = [] \<and>
          queue_of s' name = Some (q\<lparr>watch := watch q @ [cb]\<rparr>)
    | None \<Rightarrow>
        calls = [] \<and>
        queue_of s' name = Some \<lparr>key = name, watch = [cb], items = []\<rparr>) \<and>
   (\<forall>k. k \<noteq> name \<longrightarrow> queue_of s' k = queue_of s k) \<and>
   connect s' = connect s"
proof -
  assume r: "blpop s name t cb = (s', calls)"
  show ?thesis
  proof (cases "findIndex (\<lambda>l. key l = name) (storing s)")
    case None
    then have q: "queue_of s name = None"
      by (simp add: queue_of_findIndex)
    from r blpop_absent [OF None, of t cb]
    have s': "s' = s\<lparr>storing := storing s @ [\<lparr>key = name, watch = [cb], items = []\<rparr>]\<rparr>"
      and c: "calls = []"
      by simp_all
    have 1: "queue_of s' name = Some \<lparr>key = name, watch = [cb], items = []\<rparr>"
      unfolding s' queue_of_append q by simp
    have 2: "queue_of s' k = queue_of s k" if "k \<noteq> name" for k
      unfolding s' queue_of_append using that by (simp split: option.splits)
    have 3: "connect s' = connect s"
      by (simp add: s')
    show ?thesis
      unfolding q using c 1 2 3 by simp
  next
    case (Some i)
    define e where "e = storing s ! i"
    from findIndex_Some [OF Some] have ke: "key e = name"
      by (simp add: e_def)
    from Some have q: "queue_of s name = Some e"
      by (simp add: queue_of_findIndex e_def)
    show ?thesis
    proof (cases "items e = []")
      case True
      from r blpop_register [OF Some, of t cb] True
      have s': "s' = s\<lparr>storing := (storing s)[i := e\<lparr>watch := watch e @ [cb]\<rparr>]\<rparr>"
        and c: "calls = []"
        by (simp_all add: e_def)
      have 1: "queue_of s' k = (if k = name then Some (e\<lparr>watch := watch e @ [cb]\<rparr>) else queue_of s k)" for k
        unfolding s' using queue_of_update [OF Some, of "e\<lparr>watch := watch e @ [cb]\<rparr>" k] ke by simp
      have 3: "connect s' = connect s"
        by (simp add: s')
      show ?thesis
        unfolding q using True c 1 3 by simp
    next
      case False
      from r blpop_deliver [OF Some, of t cb] False
      have s': "s' = s\<lparr>storing := (storing s)[i := e\<lparr>items := tl (items e)\<rparr>]\<rparr>"
        and c: "calls = [Call cb Null (Arr [name, hd (items e)])]"
        by (simp_all add: e_def)
      have 1: "queue_of s' k = (if k = name then Some (e\<lparr>items := tl (items e)\<rparr>) else queue_of s k)" for k
        unfolding s' using queue_of_update [OF Some, of "e\<lparr>items := tl (items e)\<rparr>" k] ke by simp
      have 3: "connect s' = connect s"
        by (simp add: s')
      show ?thesis
        unfolding q using False c 1 3 by simp
    qed
  qed
qed

text \<open>
  C2. For every store, queue name, timeout and callback, \<^verbatim>\<open>blpop\<close> does one of two
  things. If the named queue exists and has items, the head item is removed and the
  callback is called, within the operation, with \<^verbatim>\<open>(null, [name, item])\<close>. Otherwise the
  callback is appended to the waiters of the queue, which is created when absent, and no
  call is made. No other queue of the store changes.
\<close>

theorem blpop_spec:
  "blpop s name t cb = (s', calls) \<Longrightarrow>
   (case queue_of s name of
      Some q \<Rightarrow>
        if items q \<noteq> [] then
          calls = [Call cb Null (Arr [name, hd (items q)])] \<and>
          queue_of s' name = Some (q\<lparr>items := tl (items q)\<rparr>)
        else
          calls = [] \<and>
          queue_of s' name = Some (q\<lparr>watch := watch q @ [cb]\<rparr>)
    | None \<Rightarrow>
        calls = [] \<and>
        queue_of s' name = Some \<lparr>key = name, watch = [cb], items = []\<rparr>) \<and>
   (\<forall>k. k \<noteq> name \<longrightarrow> queue_of s' k = queue_of s k) \<and>
   connect s' = connect s"
  using blpop_queue_of [of s name t cb s' calls] by simp

theorem blpop_spec_witness:
  "queue_of \<lparr>storing = [\<lparr>key = ''Q'', watch = [], items = [''a'', ''b'']\<rparr>], connect = ''mocks://x''\<rparr> ''Q''
     = Some \<lparr>key = ''Q'', watch = [], items = [''a'', ''b'']\<rparr> \<and>
   blpop \<lparr>storing = [\<lparr>key = ''Q'', watch = [], items = [''a'', ''b'']\<rparr>], connect = ''mocks://x''\<rparr> ''Q'' 0 5
     = (\<lparr>storing = [\<lparr>key = ''Q'', watch = [], items = [''b'']\<rparr>], connect = ''mocks://x''\<rparr>,
        [Call 5 Null (Arr [''Q'', ''a''])]) \<and>
   queue_of \<lparr>storing = [\<lparr>key = ''Q'', watch = [], items = [''b'']\<rparr>], connect = ''mocks://x''\<rparr> ''Q''
     = Some \<lparr>key = ''Q'', watch = [], items = [''b'']\<rparr>"
proof -
  have r: "blpop \<lparr>storing = [\<lparr>key = ''Q'', watch = [], items = [''a'', ''b'']\<rparr>], connect = ''mocks://x''\<rparr> ''Q'' 0 5
     = (\<lparr>storing = [\<lparr>key = ''Q'', watch = [], items = [''b'']\<rparr>], connect = ''mocks://x''\<rparr>,
        [Call 5 Null (Arr [''Q'', ''a''])])"
    by (simp add: blpop_def)
  from blpop_spec [OF r] r show ?thesis
    by (simp add: queue_of_def)
qed

text \<open>
  C10. The timeout of \<^verbatim>\<open>blpop\<close> is never read: for every store, queue name and callback,
  any two timeouts give the same calls and the same store.
\<close>

theorem blpop_timeout_irrelevant:
  "blpop s name t1 cb = blpop s name t2 cb"
  by (simp add: blpop_def)

section \<open>Immediate pop\<close>

lemma lpop_queue_of:
  "lpop s name cb = (s', calls) \<Longrightarrow>
   (case queue_of s name of
      Some q \<Rightarrow>
        if items q \<noteq> [] then
          calls = [Call cb Null (Str (hd (items q)))] \<and>
          queue_of s' name = Some (q\<lparr>items := tl (items q)\<rparr>)
        else calls = [Call cb Null Null] \<and> s' = s
    | None \<Rightarrow> calls = [Call cb Null Null] \<and> s' = s) \<and>
   (\<exists>item. calls = [Call cb Null item]) \<and>
   map watch (storing s') = map watch (storing s) \<and>
   map key (storing s') = map key (storing s) \<and>
   (\<forall>k. k \<noteq> name \<longrightarrow> queue_of s' k = queue_of s k) \<and>
   (\<forall>i. findIndex (\<lambda>l. key l = name) (storing s) = Some i \<longrightarrow> i < length (storing s)) \<and>
   connect s' = connect s"
proof -
  assume r: "lpop s name cb = (s', calls)"
  have 4: "\<forall>i. findIndex (\<lambda>l. key l = name) (storing s) = Some i \<longrightarrow> i < length (storing s)"
    using findIndex_Some by blast
  show ?thesis
  proof (cases "findIndex (\<lambda>l. key l = name) (storing s)")
    case None
    then have q: "queue_of s name = None"
      by (simp add: queue_of_findIndex)
    from r lpop_absent [OF None, of cb]
    have s': "s' = s" and c: "calls = [Call cb Null Null]"
      by simp_all
    show ?thesis
      unfolding q using c 4 by (simp add: s')
  next
    case (Some i)
    define e where "e = storing s ! i"
    from findIndex_Some [OF Some] have ke: "key e = name" and i: "i < length (storing s)"
      by (simp_all add: e_def)
    from Some have q: "queue_of s name = Some e"
      by (simp add: queue_of_findIndex e_def)
    show ?thesis
    proof (cases "items e = []")
      case True
      from r lpop_empty [OF Some, of cb] True
      have s': "s' = s" and c: "calls = [Call cb Null Null]"
        by (simp_all add: e_def)
      show ?thesis
        unfolding q using True c 4 by (simp add: s')
    next
      case False
      from r lpop_deliver [OF Some, of cb] False
      have s': "s' = s\<lparr>storing := (storing s)[i := e\<lparr>items := tl (items e)\<rparr>]\<rparr>"
        and c: "calls = [Call cb Null (Str (hd (items e)))]"
        by (simp_all add: e_def)
      have 1: "queue_of s' k = (if k = name then Some (e\<lparr>items := tl (items e)\<rparr>) else queue_of s k)" for k
        unfolding s' using queue_of_update [OF Some, of "e\<lparr>items := tl (items e)\<rparr>" k] ke by simp
      have 2: "map watch (storing s') = map watch (storing s)"
        unfolding s' using i by (simp add: map_update_same e_def)
      have 3: "map key (storing s') = map key (storing s)"
        unfolding s' using i by (simp add: map_update_same e_def)
      have 5: "connect s' = connect s"
        by (simp add: s')
      show ?thesis
        unfolding q using False c 1 2 3 4 5 by simp
    qed
  qed
qed

text \<open>
  C7. For every store, queue name and callback, \<^verbatim>\<open>lpop\<close> calls its callback exactly once,
  with a \<^verbatim>\<open>null\<close> error. If the named queue exists and has items, the head item is removed
  and handed to the callback; otherwise the callback gets \<^verbatim>\<open>null\<close> and the store is left
  as it was. No waiter list changes, no queue is created, and the position read in
  \<^verbatim>\<open>storing\<close> is always inside the list, so no access fails.
\<close>

theorem lpop_spec:
  "lpop s name cb = (s', calls) \<Longrightarrow>
   (case queue_of s name of
      Some q \<Rightarrow>
        if items q \<noteq> [] then
          calls = [Call cb Null (Str (hd (items q)))] \<and>
          queue_of s' name = Some (q\<lparr>items := tl (items q)\<rparr>)
        else calls = [Call cb Null Null] \<and> s' = s
    | None \<Rightarrow> calls = [Call cb Null Null] \<and> s' = s) \<and>
   (\<exists>item. calls = [Call cb Null item]) \<and>
   map watch (storing s') = map watch (storing s) \<and>
   map key (storing s') = map key (storing s) \<and>
   (\<forall>k. k \<noteq> name \<longrightarrow> queue_of s' k = queue_of s k) \<and>
   (\<forall>i. findIndex (\<lambda>l. key l = name) (storing s) = Some i \<longrightarrow> i < length (storing s)) \<and>
   connect s' = connect s"
  using lpop_queue_of [of s name cb s' calls] by simp

theorem lpop_spec_witness:
  "lpop \<lparr>storing = [\<lparr>key = ''Q'', watch = [], items = [''a'', ''b'']\<rparr>], connect = ''mocks://x''\<rparr> ''Q'' 5
     = (\<lparr>storing = [\<lparr>key = ''Q'', watch = [], items = [''b'']\<rparr>], connect = ''mocks://x''\<rparr>,
        [Call 5 Null (Str ''a'')]) \<and>
   lpop \<lparr>storing = [], connect = ''mocks://x''\<rparr> ''Q'' 5
     = (\<lparr>storing = [], connect = ''mocks://x''\<rparr>, [Call 5 Null Null]) \<and>
   queue_of \<lparr>storing = [], connect = ''mocks://x''\<rparr> ''Q'' = None"
proof -
  have r1: "lpop \<lparr>storing = [\<lparr>key = ''Q'', watch = [], items = [''a'', ''b'']\<rparr>], connect = ''mocks://x''\<rparr> ''Q'' 5
     = (\<lparr>storing = [\<lparr>key = ''Q'', watch = [], items = [''b'']\<rparr>], connect = ''mocks://x''\<rparr>,
        [Call 5 Null (Str ''a'')])"
    by (simp add: lpop_def)
  have r2: "lpop \<lparr>storing = [], connect = ''mocks://x''\<rparr> ''Q'' 5
     = (\<lparr>storing = [], connect = ''mocks://x''\<rparr>, [Call 5 Null Null])"
    by (simp add: lpop_def)
  from lpop_spec [OF r1] lpop_spec [OF r2] r1 r2 show ?thesis
    by (simp add: queue_of_def)
qed

section \<open>Acquiring a client\<close>

text \<open>
  C8. For every connection string that does not start with \<^verbatim>\<open>mocks://\<close>, \<^verbatim>\<open>createClient\<close>
  throws its error (the only one of the module, \<^verbatim>\<open>invalid mock queue protocol\<close>) and the
  registry is what it was, whatever it holds: no store is created or looked up.
\<close>

theorem createClient_invalid_scheme:
  "\<not> startsWith conn ''mocks://'' \<Longrightarrow>
   createClient conn stores = (Inl (Error ''invalid mock queue protocol''), stores)"
  by (simp add: createClient_def)

theorem createClient_invalid_scheme_witness:
  "\<not> startsWith ''redis://mocked'' ''mocks://'' \<and>
   createClient ''redis://mocked'' [\<lparr>storing = [], connect = ''mocks://mocked''\<rparr>]
     = (Inl (Error ''invalid mock queue protocol''), [\<lparr>storing = [], connect = ''mocks://mocked''\<rparr>])"
proof -
  have h: "\<not> startsWith ''redis://mocked'' ''mocks://''"
    by (simp add: startsWith_def)
  from createClient_invalid_scheme [OF h] h show ?thesis
    by simp
qed

section \<open>Event listeners\<close>

text \<open>
  C9, as the specification states it, asks that a later \<^verbatim>\<open>on\<close> for the label \<^verbatim>\<open>ready\<close>
  replaces the earlier listener. The class has one listener field, \<^verbatim>\<open>error\<close>, and \<^verbatim>\<open>on\<close>
  compares the label with \<^verbatim>\<open>'error'\<close> only: two registrations for \<^verbatim>\<open>ready\<close> leave a new
  handle exactly as it was, and the second listener is not kept.
\<close>

theorem on_ready_counterexample:
  "on (on (initializeClient 0) ''ready'' 1) ''ready'' 2 = initializeClient 0 \<and>
   registered (on (on (initializeClient 0) ''ready'' 1) ''ready'' 2) ''ready'' \<noteq> Some 2"
  by (simp add: on_def registered_def initializeClient_def)

text \<open>
  C9, amended. The handle keeps at most one listener, for the label \<^verbatim>\<open>error\<close>: a later
  \<^verbatim>\<open>on('error', listener)\<close> replaces the earlier listener and changes nothing else. For
  every other label, \<^verbatim>\<open>ready\<close> included, \<^verbatim>\<open>on\<close> leaves the handle as it was and no listener
  is kept for that label.
\<close>

theorem on_error_replaces:
  "registered (on (on c ''error'' l1) ''error'' l2) ''error'' = Some l2 \<and>
   on (on c ''error'' l1) ''error'' l2 = on c ''error'' l2 \<and>
   store (on c ''error'' l2) = store c \<and>
   (event \<noteq> ''error'' \<longrightarrow> on c event l = c \<and> registered c event = None)"
  by (simp add: on_def registered_def)

theorem on_error_replaces_witness:
  "registered (on (on (initializeClient 0) ''error'' 1) ''error'' 2) ''error'' = Some 2 \<and>
   on (initializeClient 0) ''ready'' 3 = initializeClient 0 \<and>
   registered (initializeClient 0) ''ready'' = None"
proof -
  have h: "''ready'' \<noteq> ''error''"
    by simp
  from on_error_replaces [of "initializeClient 0" 1 2 "''ready''" 3] h show ?thesis
    by blast
qed

section \<open>Items and waiters are never both present\<close>

lemma list_all_update:
  "list_all P xs \<Longrightarrow> P y \<Longrightarrow> list_all P (xs[i := y])"
  using set_update_subset_insert [of xs i y] by (auto simp: list_all_iff)

lemma list_all_nth:
  "list_all P xs \<Longrightarrow> i < length xs \<Longrightarrow> P (xs ! i)"
  by (simp add: list_all_iff)

lemma rpush_never_both:
  assumes "never_both s" and "rpush inert s k v = (s', calls, r)"
  shows "never_both s'"
proof (cases "findIndex (\<lambda>l. key l = k) (storing s)")
  case None
  from assms(2) rpush_absent [OF None, of inert v]
  have "s' = s\<lparr>storing := storing s @ [\<lparr>key = k, watch = [], items = [v]\<rparr>]\<rparr>"
    by simp
  with assms(1) show ?thesis
    by (simp add: never_both_def)
next
  case (Some i)
  from findIndex_Some [OF Some] have i: "i < length (storing s)"
    by simp
  with assms(1) have e: "items (storing s ! i) = [] \<or> watch (storing s ! i) = []"
    using list_all_nth [of _ "storing s" i] by (simp add: never_both_def)
  show ?thesis
  proof (cases "watch (storing s ! i) = []")
    case True
    from assms(2) rpush_buffer [OF Some True, of inert v]
    have "s' = s\<lparr>storing := (storing s)[i := (storing s ! i)\<lparr>items := items (storing s ! i) @ [v]\<rparr>]\<rparr>"
      by simp
    with assms(1) True show ?thesis
      by (simp add: never_both_def list_all_update)
  next
    case False
    from assms(2) rpush_handoff_inert [OF Some False, of v]
    have "s' = s\<lparr>storing := (storing s)[i := (storing s ! i)\<lparr>watch := tl (watch (storing s ! i))\<rparr>]\<rparr>"
      by simp
    with assms(1) False e show ?thesis
      by (simp add: never_both_def list_all_update)
  qed
qed

lemma blpop_never_both:
  assumes "never_both s" and "blpop s k t cb = (s', calls)"
  shows "never_both s'"
proof (cases "findIndex (\<lambda>l. key l = k) (storing s)")
  case None
  from assms(2) blpop_absent [OF None, of t cb]
  have "s' = s\<lparr>storing := storing s @ [\<lparr>key = k, watch = [cb], items = []\<rparr>]\<rparr>"
    by simp
  with assms(1) show ?thesis
    by (simp add: never_both_def)
next
  case (Some i)
  from findIndex_Some [OF Some] have i: "i < length (storing s)"
    by simp
  with assms(1) have e: "items (storing s ! i) = [] \<or> watch (storing s ! i) = []"
    using list_all_nth [of _ "storing s" i] by (simp add: never_both_def)
  show ?thesis
  proof (cases "items (storing s ! i) = []")
    case True
    from assms(2) blpop_register [OF Some True, of t cb]
    have "s' = s\<lparr>storing := (storing s)[i := (storing s ! i)\<lparr>watch := watch (storing s ! i) @ [cb]\<rparr>]\<rparr>"
      by simp
    with assms(1) True show ?thesis
      by (simp add: never_both_def list_all_update)
  next
    case False
    from assms(2) blpop_deliver [OF Some False, of t cb]
    have "s' = s\<lparr>storing := (storing s)[i := (storing s ! i)\<lparr>items := tl (items (storing s ! i))\<rparr>]\<rparr>"
      by simp
    with assms(1) False e show ?thesis
      by (simp add: never_both_def list_all_update)
  qed
qed

lemma lpop_never_both:
  assumes "never_both s" and "lpop s k cb = (s', calls)"
  shows "never_both s'"
proof (cases "findIndex (\<lambda>l. key l = k) (storing s)")
  case None
  from assms(2) lpop_absent [OF None, of cb] have "s' = s"
    by simp
  with assms(1) show ?thesis
    by simp
next
  case (Some i)
  from findIndex_Some [OF Some] have i: "i < length (storing s)"
    by simp
  with assms(1) have e: "items (storing s ! i) = [] \<or> watch (storing s ! i) = []"
    using list_all_nth [of _ "storing s" i] by (simp add: never_both_def)
  show ?thesis
  proof (cases "items (storing s ! i) = []")
    case True
    from assms(2) lpop_empty [OF Some True, of cb] have "s' = s"
      by simp
    with assms(1) show ?thesis
      by simp
  next
    case False
    from assms(2) lpop_deliver [OF Some False, of cb]
    have "s' = s\<lparr>storing := (storing s)[i := (storing s ! i)\<lparr>items := tl (items (storing s ! i))\<rparr>]\<rparr>"
      by simp
    with assms(1) False e show ?thesis
      by (simp add: never_both_def list_all_update)
  qed
qed

lemma createClient_never_both:
  assumes "list_all never_both stores" and "createClient conn stores = (r, stores')"
  shows "list_all never_both stores'"
  using assms
  by (auto simp: createClient_def never_both_def split: if_splits option.splits)

lemma exec_never_both:
  assumes "list_all never_both stores" and "exec c stores = Some (stores', calls, r)"
  shows "list_all never_both stores'"
proof (cases c)
  case (CreateClient conn)
  with assms(2) obtain r' where "createClient conn stores = (r', stores')"
    by (auto split: prod.splits sum.splits)
  with assms(1) show ?thesis
    by (rule createClient_never_both)
next
  case (Rpush h k v)
  with assms(2) obtain s' r' where h: "store h < length stores"
    and r: "rpush inert (stores ! store h) k v = (s', calls, r')" and s': "stores' = stores[store h := s']"
    by (auto split: if_splits prod.splits sum.splits)
  from assms(1) h have "never_both (stores ! store h)"
    by (rule list_all_nth)
  from rpush_never_both [OF this r] assms(1) show ?thesis
    unfolding s' by (simp add: list_all_update)
next
  case (Blpop h k t cb)
  with assms(2) obtain s' where h: "store h < length stores"
    and r: "blpop (stores ! store h) k t cb = (s', calls)" and s': "stores' = stores[store h := s']"
    by (auto split: if_splits prod.splits)
  from assms(1) h have "never_both (stores ! store h)"
    by (rule list_all_nth)
  from blpop_never_both [OF this r] assms(1) show ?thesis
    unfolding s' by (simp add: list_all_update)
next
  case (Lpop h k cb)
  with assms(2) obtain s' where h: "store h < length stores"
    and r: "lpop (stores ! store h) k cb = (s', calls)" and s': "stores' = stores[store h := s']"
    by (auto split: if_splits prod.splits)
  from assms(1) h have "never_both (stores ! store h)"
    by (rule list_all_nth)
  from lpop_never_both [OF this r] assms(1) show ?thesis
    unfolding s' by (simp add: list_all_update)
qed

lemma run_Cons_Some:
  assumes "run (c # cs) stores = Some (stores', tr)"
  obtains stores1 calls1 r calls2 where "exec c stores = Some (stores1, calls1, r)"
    and "run cs stores1 = Some (stores', calls2)" and "tr = calls1 @ calls2"
  using assms by (auto split: option.splits prod.splits)

lemma run_never_both:
  "list_all never_both stores \<Longrightarrow> run cmds stores = Some (stores', tr) \<Longrightarrow>
   list_all never_both stores'"
proof (induction cmds arbitrary: stores tr)
  case Nil
  then show ?case by simp
next
  case (Cons c cs)
  from Cons.prems(2) obtain stores1 calls1 r calls2
    where e: "exec c stores = Some (stores1, calls1, r)"
      and r: "run cs stores1 = Some (stores', calls2)"
    by (rule run_Cons_Some)
  from exec_never_both [OF Cons.prems(1) e] r show ?case
    by (rule Cons.IH)
qed

text \<open>
  C3. In every registry reached from the empty one by a sequence of \<^verbatim>\<open>createClient\<close>,
  \<^verbatim>\<open>rpush\<close>, \<^verbatim>\<open>blpop\<close> and \<^verbatim>\<open>lpop\<close> calls, no entry of any store has items and waiters at
  the same time. A callback is invoked after the last write of the operation that calls
  it, so the store it is invoked on is the store the operation ends with.
\<close>

theorem never_items_and_waiters:
  "run cmds [] = Some (stores, tr) \<Longrightarrow>
   \<forall>s\<in>set stores. \<forall>e\<in>set (storing s). \<not> (items e \<noteq> [] \<and> watch e \<noteq> [])"
proof -
  assume "run cmds [] = Some (stores, tr)"
  with run_never_both [of "[]" cmds stores tr] have "list_all never_both stores"
    by simp
  then show ?thesis
    by (auto simp: list_all_iff never_both_def)
qed

theorem never_items_and_waiters_witness:
  "run [CreateClient ''mocks://x'', Blpop (initializeClient 0) ''Q'' 0 5,
        Rpush (initializeClient 0) ''Q'' ''a'', Rpush (initializeClient 0) ''Q'' ''b''] []
     = Some ([\<lparr>storing = [\<lparr>key = ''Q'', watch = [], items = [''b'']\<rparr>], connect = ''mocks://x''\<rparr>],
             [Call 5 Null (Arr [''Q'', ''a''])]) \<and>
   list_all never_both
     [\<lparr>storing = [\<lparr>key = ''Q'', watch = [], items = [''b'']\<rparr>], connect = ''mocks://x''\<rparr>]"
proof -
  have r: "run [CreateClient ''mocks://x'', Blpop (initializeClient 0) ''Q'' 0 5,
        Rpush (initializeClient 0) ''Q'' ''a'', Rpush (initializeClient 0) ''Q'' ''b''] []
     = Some ([\<lparr>storing = [\<lparr>key = ''Q'', watch = [], items = [''b'']\<rparr>], connect = ''mocks://x''\<rparr>],
             [Call 5 Null (Arr [''Q'', ''a''])])"
    by (simp add: createClient_def startsWith_def initializeClient_def blpop_def rpush_def inert_def)
  from never_items_and_waiters [OF r] r show ?thesis
    by (simp add: never_both_def)
qed

section \<open>Callbacks of blocking pops\<close>

text \<open>Which calls an operation can make.\<close>

lemma rpush_calls:
  assumes "rpush inert s k v = (s', calls, r)" and "x \<in> set calls"
  shows "\<exists>f w. x = Call f Null (Arr [k, w])"
  using assms by (auto simp: rpush_def inert_def Let_def split: option.splits if_splits)

lemma blpop_calls:
  assumes "blpop s k t c = (s', calls)" and "x \<in> set calls"
  shows "\<exists>w. x = Call c Null (Arr [k, w])"
  using assms by (auto simp: blpop_def Let_def split: option.splits if_splits)

lemma lpop_calls:
  assumes "lpop s k c = (s', calls)"
  shows "calls = [Call c Null Null] \<or> (\<exists>w. calls = [Call c Null (Str w)])"
  using assms by (auto simp: lpop_def Let_def split: option.splits if_splits)

lemma exec_calls:
  assumes "exec c stores = Some (stores', calls, r)" and "Call f err item \<in> set calls"
  shows "err = Null \<and>
         ((\<exists>k w. item = Arr [k, w]) \<or>
          (item = Null \<or> (\<exists>w. item = Str w)) \<and> lpop_callback c = Some f)"
proof (cases c)
  case (CreateClient conn)
  with assms show ?thesis
    by (auto split: prod.splits sum.splits)
next
  case (Rpush h k v)
  with assms(1) obtain s' r' where "rpush inert (stores ! store h) k v = (s', calls, r')"
    by (auto split: if_splits prod.splits sum.splits)
  from rpush_calls [OF this assms(2)] show ?thesis
    by auto
next
  case (Blpop h k t g)
  with assms(1) obtain s' where "blpop (stores ! store h) k t g = (s', calls)"
    by (auto split: if_splits prod.splits)
  from blpop_calls [OF this assms(2)] show ?thesis
    by auto
next
  case (Lpop h k g)
  with assms(1) obtain s' where "lpop (stores ! store h) k g = (s', calls)"
    by (auto split: if_splits prod.splits)
  from lpop_calls [OF this] assms(2) Lpop show ?thesis
    by auto
qed

lemma run_calls:
  "run cmds stores = Some (stores', tr) \<Longrightarrow> Call f err item \<in> set tr \<Longrightarrow>
   err = Null \<and>
   ((\<exists>k w. item = Arr [k, w]) \<or>
    (item = Null \<or> (\<exists>w. item = Str w)) \<and> Some f \<in> set (map lpop_callback cmds))"
proof (induction cmds arbitrary: stores tr)
  case Nil
  then show ?case by simp
next
  case (Cons c cs)
  from Cons.prems(1) obtain stores1 calls1 r calls2
    where e: "exec c stores = Some (stores1, calls1, r)"
      and r: "run cs stores1 = Some (stores', calls2)" and tr: "tr = calls1 @ calls2"
    by (rule run_Cons_Some)
  from Cons.prems(2) tr consider "Call f err item \<in> set calls1" | "Call f err item \<in> set calls2"
    by auto
  then show ?case
  proof cases
    case 1
    from exec_calls [OF e 1] show ?thesis
      by auto
  next
    case 2
    from Cons.IH [OF r 2] show ?thesis
      by auto
  qed
qed

text \<open>
  C4. The specification asks that the callback of every waiter is invoked exactly once:
  with a matched pair by a later push, or with \<^verbatim>\<open>(null, null)\<close> once its timeout has run
  out; the doc comment of \<^verbatim>\<open>blpop\<close> promises the same null reply when the timeout has
  expired. The code does not do it. \<^verbatim>\<open>blpop\<close> never reads \<^verbatim>\<open>timeoutInSecs\<close> and the module
  starts no timer, so the only calls are those the operations make, and by the lemma above
  a call whose item is not a pair only ever goes to the callback of an \<^verbatim>\<open>lpop\<close>. Below,
  callback 9 waits on \<^verbatim>\<open>P\<close> with a timeout of one second and no push to \<^verbatim>\<open>P\<close> follows:
  after the operations that follow it is still in the waiter list and has not been
  invoked, neither with a pair nor with \<^verbatim>\<open>(null, null)\<close>.
\<close>

theorem blpop_timeout_no_reply:
  "run [CreateClient ''mocks://x'', Blpop (initializeClient 0) ''P'' 1 9,
        Lpop (initializeClient 0) ''P'' 8, Rpush (initializeClient 0) ''R'' ''v''] []
     = Some ([\<lparr>storing = [\<lparr>key = ''P'', watch = [9], items = []\<rparr>,
                             \<lparr>key = ''R'', watch = [], items = [''v'']\<rparr>],
               connect = ''mocks://x''\<rparr>],
             [Call 8 Null Null]) \<and>
   length (filter (invoked 9) [Call 8 Null Null]) = 0"
  by (simp add: createClient_def startsWith_def initializeClient_def blpop_def lpop_def rpush_def
        inert_def)

section \<open>First in, first out\<close>

subsection \<open>Each operation acts on its queue as the queue of the specification\<close>

lemma rpush_refines:
  assumes "rpush inert s Q v = (s', calls, r)"
  shows "((buffered s' Q, waiting s' Q), calls) = fifo_step Q (Push v) (buffered s Q, waiting s Q)"
    and "k \<noteq> Q \<Longrightarrow> buffered s' k = buffered s k \<and> waiting s' k = waiting s k"
  using rpush_queue_of [OF assms]
  by (auto simp: buffered_def waiting_def neq_Nil_conv split: option.splits if_splits list.splits)

lemma blpop_refines:
  assumes "blpop s Q t f = (s', calls)"
  shows "((buffered s' Q, waiting s' Q), calls)
           = fifo_step Q (BlockingPop t f) (buffered s Q, waiting s Q)"
    and "k \<noteq> Q \<Longrightarrow> buffered s' k = buffered s k \<and> waiting s' k = waiting s k"
  using blpop_queue_of [OF assms]
  by (auto simp: buffered_def waiting_def neq_Nil_conv split: option.splits if_splits list.splits)

lemma lpop_refines:
  assumes "lpop s Q f = (s', calls)"
  shows "((buffered s' Q, waiting s' Q), calls) = fifo_step Q (Pop f) (buffered s Q, waiting s Q)"
    and "k \<noteq> Q \<Longrightarrow> buffered s' k = buffered s k \<and> waiting s' k = waiting s k"
  using lpop_queue_of [OF assms]
  by (auto simp: buffered_def waiting_def neq_Nil_conv split: option.splits if_splits list.splits)

lemma exec_refines:
  assumes "store h < length stores"
  shows "\<exists>stores' r.
           exec (command_of h Q p) stores
             = Some (stores', snd (fifo_step Q p (queue_view stores h Q)), r) \<and>
           length stores' = length stores \<and>
           queue_view stores' h Q = fst (fifo_step Q p (queue_view stores h Q)) \<and>
           (\<forall>k. k \<noteq> Q \<longrightarrow> queue_view stores' h k = queue_view stores h k) \<and>
           (\<forall>j. j \<noteq> store h \<longrightarrow> stores' ! j = stores ! j)"
proof (cases p)
  case (Push v)
  obtain s' calls r where r: "rpush inert (stores ! store h) Q v = (s', calls, r)"
    by (cases "rpush inert (stores ! store h) Q v") auto
  from rpush_refines [OF r] assms
  have "queue_view (stores[store h := s']) h Q = fst (fifo_step Q p (queue_view stores h Q))"
    and "calls = snd (fifo_step Q p (queue_view stores h Q))"
    and "\<forall>k. k \<noteq> Q \<longrightarrow> queue_view (stores[store h := s']) h k = queue_view stores h k"
    unfolding queue_view_def Push by (simp_all, (metis fst_conv snd_conv)+)
  moreover from r assms obtain r' where
    "exec (command_of h Q p) stores = Some (stores[store h := s'], calls, r')"
    unfolding Push by (cases r) auto
  ultimately show ?thesis
    by (intro exI [of _ "stores[store h := s']"] exI [of _ r']) simp
next
  case (BlockingPop t f)
  obtain s' calls where r: "blpop (stores ! store h) Q t f = (s', calls)"
    by (cases "blpop (stores ! store h) Q t f") auto
  from blpop_refines [OF r] assms
  have "queue_view (stores[store h := s']) h Q = fst (fifo_step Q p (queue_view stores h Q))"
    and "calls = snd (fifo_step Q p (queue_view stores h Q))"
    and "\<forall>k. k \<noteq> Q \<longrightarrow> queue_view (stores[store h := s']) h k = queue_view stores h k"
    unfolding queue_view_def BlockingPop by (simp_all, (metis fst_conv snd_conv)+)
  moreover from r assms have
    "exec (command_of h Q p) stores = Some (stores[store h := s'], calls, Void)"
    unfolding BlockingPop by simp
  ultimately show ?thesis
    by (intro exI [of _ "stores[store h := s']"] exI [of _ Void]) simp
next
  case (Pop f)
  obtain s' calls where r: "lpop (stores ! store h) Q f = (s', calls)"
    by (cases "lpop (stores ! store h) Q f") auto
  from lpop_refines [OF r] assms
  have "queue_view (stores[store h := s']) h Q = fst (fifo_step Q p (queue_view stores h Q))"
    and "calls = snd (fifo_step Q p (queue_view stores h Q))"
    and "\<forall>k. k \<noteq> Q \<longrightarrow> queue_view (stores[store h := s']) h k = queue_view stores h k"
    unfolding queue_view_def Pop by (simp_all, (metis fst_conv snd_conv)+)
  moreover from r assms have
    "exec (command_of h Q p) stores = Some (stores[store h := s'], calls, Void)"
    unfolding Pop by simp
  ultimately show ?thesis
    by (intro exI [of _ "stores[store h := s']"] exI [of _ Void]) simp
qed

lemma run_refines:
  assumes "store h < length stores"
  shows "\<exists>stores'.
           run (map (command_of h Q) ops) stores
             = Some (stores', snd (fifo_run Q ops (queue_view stores h Q))) \<and>
           length stores' = length stores \<and>
           queue_view stores' h Q = fst (fifo_run Q ops (queue_view stores h Q)) \<and>
           (\<forall>k. k \<noteq> Q \<longrightarrow> queue_view stores' h k = queue_view stores h k) \<and>
           (\<forall>j. j \<noteq> store h \<longrightarrow> stores' ! j = stores ! j)"
  using assms
proof (induction ops arbitrary: stores)
  case Nil
  then show ?case by simp
next
  case (Cons p ps)
  from exec_refines [OF Cons.prems, of Q p] obtain stores1 r
    where e: "exec (command_of h Q p) stores
                = Some (stores1, snd (fifo_step Q p (queue_view stores h Q)), r)"
      and l1: "length stores1 = length stores"
      and v1: "queue_view stores1 h Q = fst (fifo_step Q p (queue_view stores h Q))"
      and k1: "\<forall>k. k \<noteq> Q \<longrightarrow> queue_view stores1 h k = queue_view stores h k"
      and j1: "\<forall>j. j \<noteq> store h \<longrightarrow> stores1 ! j = stores ! j"
    by blast
  from Cons.prems l1 have "store h < length stores1"
    by simp
  from Cons.IH [OF this] obtain stores2
    where r: "run (map (command_of h Q) ps) stores1
                = Some (stores2, snd (fifo_run Q ps (queue_view stores1 h Q)))"
      and l2: "length stores2 = length stores1"
      and v2: "queue_view stores2 h Q = fst (fifo_run Q ps (queue_view stores1 h Q))"
      and k2: "\<forall>k. k \<noteq> Q \<longrightarrow> queue_view stores2 h k = queue_view stores1 h k"
      and j2: "\<forall>j. j \<noteq> store h \<longrightarrow> stores2 ! j = stores1 ! j"
    by blast
  have "run (map (command_of h Q) (p # ps)) stores
          = Some (stores2, snd (fifo_run Q (p # ps) (queue_view stores h Q)))"
    using e r v1 by (simp split: prod.splits)
  moreover have "queue_view stores2 h Q = fst (fifo_run Q (p # ps) (queue_view stores h Q))"
    using v1 v2 by (simp split: prod.splits)
  ultimately show ?case
    using l1 l2 k1 k2 j1 j2 by (intro exI [of _ stores2]) simp
qed

subsection \<open>The queue of the specification is first in, first out\<close>

lemma fifo_run_append:
  "fifo_run Q (ps @ ps') q =
     (case fifo_run Q ps q of
        (q1, calls1) \<Rightarrow> (case fifo_run Q ps' q1 of (q2, calls2) \<Rightarrow> (q2, calls1 @ calls2)))"
  by (induction ps arbitrary: q) (simp_all split: prod.splits)

lemma fifo_run_pushes_buffer:
  "fifo_run Q (map Push vs) (xs, []) = ((xs @ vs, []), [])"
  by (induction vs arbitrary: xs) simp_all

lemma fifo_run_pops:
  "length pops \<le> length xs \<Longrightarrow>
   fifo_run Q (map (\<lambda>p. case p of Immediate f \<Rightarrow> Pop f | Blocking t f \<Rightarrow> BlockingPop t f) pops)
     (xs, ws)
   = ((drop (length pops) xs, ws), map2 (delivery Q) pops xs)"
proof (induction pops arbitrary: xs)
  case Nil
  then show ?case by simp
next
  case (Cons p pops)
  then obtain x xs' where xs: "xs = x # xs'"
    by (cases xs) auto
  with Cons.prems have "length pops \<le> length xs'"
    by simp
  from Cons.IH [OF this] xs show ?case
    by (cases p) simp_all
qed

lemma fifo_run_register:
  "fifo_run Q (map (\<lambda>(t, f). BlockingPop t f) tfs) ([], ws) = (([], ws @ map snd tfs), [])"
  by (induction tfs arbitrary: ws) (simp_all split: prod.splits)

lemma fifo_run_pushes_handoff:
  "length vs \<le> length ws \<Longrightarrow>
   fifo_run Q (map Push vs) (xs, ws)
   = ((xs, drop (length vs) ws), map2 (\<lambda>w v. Call w Null (Arr [Q, v])) ws vs)"
proof (induction vs arbitrary: ws)
  case Nil
  then show ?case by simp
next
  case (Cons v vs)
  then obtain w ws' where ws: "ws = w # ws'"
    by (cases ws) auto
  with Cons.prems have "length vs \<le> length ws'"
    by simp
  from Cons.IH [OF this] ws show ?case
    by simp
qed

lemma command_of_pushes: "map (command_of h Q) (map Push vs) = map (Rpush h Q) vs"
  by simp

lemma command_of_pops:
  "map (command_of h Q)
     (map (\<lambda>p. case p of Immediate f \<Rightarrow> Pop f | Blocking t f \<Rightarrow> BlockingPop t f) pops)
   = map (pop_command h Q) pops"
  by (induction pops) (simp_all split: pop.splits)

lemma command_of_blpops:
  "map (command_of h Q) (map (\<lambda>(t, f). BlockingPop t f) tfs) = map (\<lambda>(t, f). Blpop h Q t f) tfs"
  by (induction tfs) (simp_all split: prod.splits)

lemma fifo_items:
  assumes "store h < length stores" and "queue_view stores h Q = (xs, [])"
    and "length pops \<le> length (xs @ vs)"
  shows "\<exists>stores'. run (map (Rpush h Q) vs @ map (pop_command h Q) pops) stores
             = Some (stores', map2 (delivery Q) pops (xs @ vs)) \<and>
           length stores' = length stores \<and>
           queue_view stores' h Q = (drop (length pops) (xs @ vs), [])"
proof -
  let ?ops = "map Push vs
    @ map (\<lambda>p. case p of Immediate f \<Rightarrow> Pop f | Blocking t f \<Rightarrow> BlockingPop t f) pops"
  have f: "fifo_run Q ?ops (xs, [])
             = ((drop (length pops) (xs @ vs), []), map2 (delivery Q) pops (xs @ vs))"
    using fifo_run_pops [OF assms(3), of Q "[]"]
    by (simp add: fifo_run_append fifo_run_pushes_buffer)
  have c: "map (command_of h Q) ?ops = map (Rpush h Q) vs @ map (pop_command h Q) pops"
    using command_of_pops [of h Q pops] by simp
  from run_refines [OF assms(1), of Q ?ops] show ?thesis
    unfolding c assms(2) f by auto
qed

lemma fifo_waiters:
  assumes "store h < length stores" and "queue_view stores h Q = ([], ws)"
    and "length vs \<le> length (ws @ map snd tfs)"
  shows "\<exists>stores'. run (map (\<lambda>(t, f). Blpop h Q t f) tfs @ map (Rpush h Q) vs) stores
             = Some (stores', map2 (\<lambda>w v. Call w Null (Arr [Q, v])) (ws @ map snd tfs) vs) \<and>
           length stores' = length stores \<and>
           queue_view stores' h Q = ([], drop (length vs) (ws @ map snd tfs))"
proof -
  let ?ops = "map (\<lambda>(t, f). BlockingPop t f) tfs @ map Push vs"
  have f: "fifo_run Q ?ops ([], ws)
             = (([], drop (length vs) (ws @ map snd tfs)),
                map2 (\<lambda>w v. Call w Null (Arr [Q, v])) (ws @ map snd tfs) vs)"
    using fifo_run_pushes_handoff [OF assms(3), of Q "[]"]
    by (simp add: fifo_run_append fifo_run_register)
  have c: "map (command_of h Q) ?ops = map (\<lambda>(t, f). Blpop h Q t f) tfs @ map (Rpush h Q) vs"
    using command_of_blpops [of h Q tfs] by simp
  from run_refines [OF assms(1), of Q ?ops] show ?thesis
    unfolding c assms(2) f by auto
qed

text \<open>
  C6. On every queue name, items leave in the order they were pushed and waiters are
  served in the order they registered, whichever pop takes the items. Through any handle,
  any sequence of pushes, blocking pops and immediate pops on a queue makes exactly the
  calls the first-in-first-out queue of the specification makes, and leaves exactly its
  items and waiters; other queues and other stores are untouched. In particular, on a
  queue with no item and no waiter, pushing \<open>a\<close>, \<open>b\<close>, \<open>c\<close> and then popping three times
  hands \<open>a\<close>, \<open>b\<close>, \<open>c\<close> to the three callbacks in that order, with immediate pops and with
  blocking pops alike, and registering \<open>W1\<close> then \<open>W2\<close> and then pushing \<open>v1\<close>, \<open>v2\<close>
  calls \<open>W1\<close> with \<open>v1\<close> and \<open>W2\<close> with \<open>v2\<close>. For any number of pushes and pops of
  either kind: on a queue without waiters the pops receive the buffered items followed by
  the pushed ones, in order; on a queue without items the pushes go to the waiters already
  there followed by the newly registered ones, in order.
\<close>

theorem fifo_order:
  assumes "store h < length stores"
  shows
   "(\<exists>stores'. run (map (command_of h Q) ops) stores
        = Some (stores', snd (fifo_run Q ops (queue_view stores h Q))) \<and>
      length stores' = length stores \<and>
      queue_view stores' h Q = fst (fifo_run Q ops (queue_view stores h Q)) \<and>
      (\<forall>k. k \<noteq> Q \<longrightarrow> queue_view stores' h k = queue_view stores h k) \<and>
      (\<forall>j. j \<noteq> store h \<longrightarrow> stores' ! j = stores ! j)) \<and>
    (queue_view stores h Q = ([], []) \<longrightarrow>
       (\<exists>stores'. run [Rpush h Q a, Rpush h Q b, Rpush h Q c,
                         Lpop h Q f1, Lpop h Q f2, Lpop h Q f3] stores
          = Some (stores', [Call f1 Null (Str a), Call f2 Null (Str b), Call f3 Null (Str c)]) \<and>
          queue_view stores' h Q = ([], [])) \<and>
       (\<exists>stores'. run [Rpush h Q a, Rpush h Q b, Rpush h Q c,
                         Blpop h Q t1 f1, Blpop h Q t2 f2, Blpop h Q t3 f3] stores
          = Some (stores', [Call f1 Null (Arr [Q, a]), Call f2 Null (Arr [Q, b]),
                            Call f3 Null (Arr [Q, c])]) \<and>
          queue_view stores' h Q = ([], [])) \<and>
       (\<exists>stores'. run [Blpop h Q t1 W1, Blpop h Q t2 W2, Rpush h Q v1, Rpush h Q v2] stores
          = Some (stores', [Call W1 Null (Arr [Q, v1]), Call W2 Null (Arr [Q, v2])]) \<and>
          queue_view stores' h Q = ([], []))) \<and>
    (queue_view stores h Q = (xs, []) \<longrightarrow> length pops \<le> length (xs @ vs) \<longrightarrow>
       (\<exists>stores'. run (map (Rpush h Q) vs @ map (pop_command h Q) pops) stores
          = Some (stores', map2 (delivery Q) pops (xs @ vs)) \<and>
          length stores' = length stores \<and>
          queue_view stores' h Q = (drop (length pops) (xs @ vs), []))) \<and>
    (queue_view stores h Q = ([], ws) \<longrightarrow> length us \<le> length (ws @ map snd tfs) \<longrightarrow>
       (\<exists>stores'. run (map (\<lambda>(t, f). Blpop h Q t f) tfs @ map (Rpush h Q) us) stores
          = Some (stores', map2 (\<lambda>w v. Call w Null (Arr [Q, v])) (ws @ map snd tfs) us) \<and>
          length stores' = length stores \<and>
          queue_view stores' h Q = ([], drop (length us) (ws @ map snd tfs))))"
proof (intro conjI impI)
  show "\<exists>stores'. run (map (command_of h Q) ops) stores
        = Some (stores', snd (fifo_run Q ops (queue_view stores h Q))) \<and>
      length stores' = length stores \<and>
      queue_view stores' h Q = fst (fifo_run Q ops (queue_view stores h Q)) \<and>
      (\<forall>k. k \<noteq> Q \<longrightarrow> queue_view stores' h k = queue_view stores h k) \<and>
      (\<forall>j. j \<noteq> store h \<longrightarrow> stores' ! j = stores ! j)"
    using assms by (rule run_refines)
next
  assume v: "queue_view stores h Q = ([], [])"
  from run_refines [OF assms, of Q "[Push a, Push b, Push c, Pop f1, Pop f2, Pop f3]"]
  show "\<exists>stores'. run [Rpush h Q a, Rpush h Q b, Rpush h Q c,
                         Lpop h Q f1, Lpop h Q f2, Lpop h Q f3] stores
          = Some (stores', [Call f1 Null (Str a), Call f2 Null (Str b), Call f3 Null (Str c)]) \<and>
          queue_view stores' h Q = ([], [])"
    unfolding v by (auto simp del: run.simps)
  from run_refines [OF assms, of Q
      "[Push a, Push b, Push c, BlockingPop t1 f1, BlockingPop t2 f2, BlockingPop t3 f3]"]
  show "\<exists>stores'. run [Rpush h Q a, Rpush h Q b, Rpush h Q c,
                         Blpop h Q t1 f1, Blpop h Q t2 f2, Blpop h Q t3 f3] stores
          = Some (stores', [Call f1 Null (Arr [Q, a]), Call f2 Null (Arr [Q, b]),
                            Call f3 Null (Arr [Q, c])]) \<and>
          queue_view stores' h Q = ([], [])"
    unfolding v by (auto simp del: run.simps)
  from run_refines [OF assms, of Q "[BlockingPop t1 W1, BlockingPop t2 W2, Push v1, Push v2]"]
  show "\<exists>stores'. run [Blpop h Q t1 W1, Blpop h Q t2 W2, Rpush h Q v1, Rpush h Q v2] stores
          = Some (stores', [Call W1 Null (Arr [Q, v1]), Call W2 Null (Arr [Q, v2])]) \<and>
          queue_view stores' h Q = ([], [])"
    unfolding v by (auto simp del: run.simps)
next
  assume "queue_view stores h Q = (xs, [])" and "length pops \<le> length (xs @ vs)"
  with assms show "\<exists>stores'. run (map (Rpush h Q) vs @ map (pop_command h Q) pops) stores
          = Some (stores', map2 (delivery Q) pops (xs @ vs)) \<and>
          length stores' = length stores \<and>
          queue_view stores' h Q = (drop (length pops) (xs @ vs), [])"
    by (rule fifo_items)
next
  assume "queue_view stores h Q = ([], ws)" and "length us \<le> length (ws @ map snd tfs)"
  with assms show "\<exists>stores'. run (map (\<lambda>(t, f). Blpop h Q t f) tfs @ map (Rpush h Q) us) stores
          = Some (stores', map2 (\<lambda>w v. Call w Null (Arr [Q, v])) (ws @ map snd tfs) us) \<and>
          length stores' = length stores \<and>
          queue_view stores' h Q = ([], drop (length us) (ws @ map snd tfs))"
    by (rule fifo_waiters)
qed

theorem fifo_order_witness:
  "store (initializeClient 0) < length [\<lparr>storing = [], connect = ''mocks://x''\<rparr>] \<and>
   queue_view [\<lparr>storing = [], connect = ''mocks://x''\<rparr>] (initializeClient 0) ''Q'' = ([], []) \<and>
   map_option snd
     (run [Rpush (initializeClient 0) ''Q'' ''a'', Rpush (initializeClient 0) ''Q'' ''b'',
           Rpush (initializeClient 0) ''Q'' ''c'', Lpop (initializeClient 0) ''Q'' 1,
           Lpop (initializeClient 0) ''Q'' 2, Lpop (initializeClient 0) ''Q'' 3]
        [\<lparr>storing = [], connect = ''mocks://x''\<rparr>])
     = Some [Call 1 Null (Str ''a''), Call 2 Null (Str ''b''), Call 3 Null (Str ''c'')] \<and>
   map_option snd
     (run [Rpush (initializeClient 0) ''Q'' ''a'', Rpush (initializeClient 0) ''Q'' ''b'',
           Rpush (initializeClient 0) ''Q'' ''c'', Blpop (initializeClient 0) ''Q'' 0 1,
           Blpop (initializeClient 0) ''Q'' 0 2, Blpop (initializeClient 0) ''Q'' 0 3]
        [\<lparr>storing = [], connect = ''mocks://x''\<rparr>])
     = Some [Call 1 Null (Arr [''Q'', ''a'']), Call 2 Null (Arr [''Q'', ''b'']),
             Call 3 Null (Arr [''Q'', ''c''])] \<and>
   map_option snd
     (run [Blpop (initializeClient 0) ''Q'' 0 4, Blpop (initializeClient 0) ''Q'' 0 5,
           Rpush (initializeClient 0) ''Q'' ''v1'', Rpush (initializeClient 0) ''Q'' ''v2'']
        [\<lparr>storing = [], connect = ''mocks://x''\<rparr>])
     = Some [Call 4 Null (Arr [''Q'', ''v1'']), Call 5 Null (Arr [''Q'', ''v2''])]"
proof -
  let ?st = "[\<lparr>storing = [], connect = ''mocks://x''\<rparr>]"
  let ?h = "initializeClient 0"
  have h: "store ?h < length ?st"
    by (simp add: initializeClient_def)
  have v: "queue_view ?st ?h ''Q'' = ([], [])"
    by (simp add: queue_view_def buffered_def waiting_def queue_of_def initializeClient_def)
  have 1: "map_option snd
     (run [Rpush ?h ''Q'' ''a'', Rpush ?h ''Q'' ''b'', Rpush ?h ''Q'' ''c'',
           Lpop ?h ''Q'' 1, Lpop ?h ''Q'' 2, Lpop ?h ''Q'' 3] ?st)
     = Some [Call 1 Null (Str ''a''), Call 2 Null (Str ''b''), Call 3 Null (Str ''c'')]"
    using fifo_order [OF h, of "''Q''" "[]" "''a''" "''b''" "''c''" 1 2 3 0 0 0 4 5 "''v1''" "''v2''"
        "[]" "[]" "[]" "[]" "[]" "[]"] v
    by (auto simp del: run.simps)
  have 2: "map_option snd
     (run [Rpush ?h ''Q'' ''a'', Rpush ?h ''Q'' ''b'', Rpush ?h ''Q'' ''c'',
           Blpop ?h ''Q'' 0 1, Blpop ?h ''Q'' 0 2, Blpop ?h ''Q'' 0 3] ?st)
     = Some [Call 1 Null (Arr [''Q'', ''a'']), Call 2 Null (Arr [''Q'', ''b'']),
             Call 3 Null (Arr [''Q'', ''c''])]"
    using fifo_order [OF h, of "''Q''" "[]" "''a''" "''b''" "''c''" 1 2 3 0 0 0 4 5 "''v1''" "''v2''"
        "[]" "[]" "[]" "[]" "[]" "[]"] v
    by (auto simp del: run.simps)
  have 3: "map_option snd
     (run [Blpop ?h ''Q'' 0 4, Blpop ?h ''Q'' 0 5, Rpush ?h ''Q'' ''v1'', Rpush ?h ''Q'' ''v2''] ?st)
     = Some [Call 4 Null (Arr [''Q'', ''v1'']), Call 5 Null (Arr [''Q'', ''v2''])]"
    using fifo_order [OF h, of "''Q''" "[]" "''a''" "''b''" "''c''" 1 2 3 0 0 0 4 5 "''v1''" "''v2''"
        "[]" "[]" "[]" "[]" "[]" "[]"] v
    by (auto simp del: run.simps)
  from h v 1 2 3 show ?thesis
    by simp
qed

section \<open>The registry: one store per connection string\<close>













end
